theory Spec2Isabelle
  imports Complex_Main "HOL-Library.Word"
begin

section \<open>Python values used by the matching engine\<close>

text \<open>
  A Python \<open>str\<close> is a sequence of Unicode code points, so a string is modelled as the
  list of its code points and \<open>ord\<close> is the injection of a code point into the integers.
  Python integers are unbounded: \<open>int\<close>.  Loop counters produced by \<open>range\<close> and the
  counters incremented from \<open>0\<close> are natural numbers.
\<close>

type_synonym pystr = "nat list"

definition lit :: "string \<Rightarrow> pystr" where
  "lit s = map of_char s"

definition py_ord :: "nat \<Rightarrow> int" where
  "py_ord c = int c"

datatype error = ValueError | IndexError

text \<open>\<open>xs[i]\<close> for a non-negative index: out of range raises \<open>IndexError\<close>.\<close>

definition py_index :: "'a list \<Rightarrow> nat \<Rightarrow> error + 'a" where
  "py_index xs i = (if i < length xs then Inr (xs ! i) else Inl IndexError)"

text \<open>\<open>range(k)\<close> for an integer \<open>k\<close>: empty when \<open>k \<le> 0\<close>.\<close>

definition py_range :: "int \<Rightarrow> nat list" where
  "py_range k = [0 ..< nat k]"

text \<open>A \<open>for\<close> loop over a list of indices whose body may raise.\<close>

fun for_loop :: "('i \<Rightarrow> 's \<Rightarrow> error + 's) \<Rightarrow> 'i list \<Rightarrow> 's \<Rightarrow> error + 's" where
  "for_loop body [] s = Inr s"
| "for_loop body (i # is) s =
     (case body i s of Inl e \<Rightarrow> Inl e | Inr s' \<Rightarrow> for_loop body is s')"

text \<open>\<open>str(k)\<close> of an integer, as the f-strings of the detail lines render it.\<close>

fun str_nat :: "nat \<Rightarrow> pystr" where
  "str_nat k = (if k < 10 then [48 + k] else str_nat (k div 10) @ [48 + k mod 10])"

declare str_nat.simps [simp del]

definition str_int :: "int \<Rightarrow> pystr" where
  "str_int k = (if k < 0 then 45 # str_nat (nat (- k)) else str_nat (nat k))"

text \<open>
  The built-in \<open>pow(a, e, c)\<close> with three integer arguments.  A zero modulus raises
  \<open>ValueError\<close>; modulus \<open>1\<close> or \<open>-1\<close> gives \<open>0\<close>; a negative exponent replaces the base by
  its inverse modulo \<open>|c|\<close> and raises \<open>ValueError\<close> when there is none; the result takes
  the sign of the modulus.  The power itself is computed by repeated squaring.
\<close>

function modpow :: "int \<Rightarrow> nat \<Rightarrow> int \<Rightarrow> int" where
  "modpow a e c =
     (if e = 0 then 1 mod c
      else if even e then modpow (a * a mod c) (e div 2) c
      else a * modpow (a * a mod c) (e div 2) c mod c)"
  by pat_completeness auto
termination
  by (relation "measure (\<lambda>(a, e, c). e)") auto

declare modpow.simps [simp del]

definition invmod :: "int \<Rightarrow> int \<Rightarrow> int option" where
  "invmod a c = find (\<lambda>x. a * x mod c = 1) (map int [0 ..< nat c])"

definition py_pow3 :: "int \<Rightarrow> int \<Rightarrow> int \<Rightarrow> error + int" where
  "py_pow3 a e c =
     (if c = 0 then Inl ValueError
      else if \<bar>c\<bar> = 1 then Inr 0
      else
        (case (if e < 0 then invmod a \<bar>c\<bar> else Some a) of
           None \<Rightarrow> Inl ValueError
         | Some b \<Rightarrow>
             (let z = modpow b (nat \<bar>e\<bar>) \<bar>c\<bar>
              in Inr (if c < 0 \<and> z \<noteq> 0 then z - \<bar>c\<bar> else z))))"

text \<open>
  Numbers stored in the \<open>index\<close> field: the naive matcher and the check steps store the
  integer offset, the initial step stores \<open>-1\<close>, and a rolling step stores the float
  \<open>i + 0.5\<close>, which is exact for every offset below \<open>2^52\<close> and is kept as a rational.
\<close>

datatype py_number = PyInt int | PyFloat rat

section \<open>The environment of a run\<close>

text \<open>
  The two matchers read the monotonic clock and ask for the size of their arguments.
  Both are inputs of the model: \<open>perf_counter_ns env k\<close> is the value of the \<open>k\<close>-th clock
  reading of the call, a signed 64-bit count of nanoseconds as the interpreter returns
  it, and \<open>getsizeof env s\<close> is what \<open>sys.getsizeof\<close> answers for \<open>s\<close>.
\<close>

record env =
  perf_counter_ns :: "nat \<Rightarrow> 64 word"
  getsizeof :: "pystr \<Rightarrow> int"

text \<open>
  Python floats are IEEE doubles.  A double is kept as the rational number it denotes,
  and \<open>round_to_double\<close> is rounding to the nearest double, ties to the even significand:
  for \<open>x \<noteq> 0\<close> with \<open>2^e \<le> |x| < 2^(e+1)\<close> the significand \<open>|x| / 2^(e-52)\<close> is rounded to
  an integer.  It is used on integers below \<open>2^64\<close> in absolute value and on their
  quotients by \<open>10^9\<close>, which are zero or lie well inside the range of normal doubles, so
  neither overflow nor gradual underflow occurs.
\<close>

fun bitlen :: "nat \<Rightarrow> nat" where
  "bitlen n = (if n = 0 then 0 else Suc (bitlen (n div 2)))"

declare bitlen.simps [simp del]

definition pow2 :: "int \<Rightarrow> rat" where
  "pow2 e = (if 0 \<le> e then 2 ^ nat e else 1 / 2 ^ nat (- e))"

definition round_half_even :: "rat \<Rightarrow> int" where
  "round_half_even x =
     (let f = \<lfloor>x\<rfloor>; r = x - of_int f
      in if r < 1 / 2 then f else if 1 / 2 < r then f + 1
         else if even f then f else f + 1)"

definition round_to_double :: "rat \<Rightarrow> rat" where
  "round_to_double x =
     (if x = 0 then 0
      else
        (let a = \<bar>x\<bar>;
             l = int (bitlen (nat (fst (quotient_of a)))) - int (bitlen (nat (snd (quotient_of a))));
             e = (if pow2 l \<le> a then l else l - 1);
             m = round_half_even (a * pow2 (52 - e))
         in sgn x * of_int m * pow2 (e - 52)))"

text \<open>
  \<open>(end_ns - start_ns)/1e9\<close>: the difference is an exact Python integer; the true division
  converts it to a double and divides by the double \<open>1e9\<close>, each step correctly rounded.
\<close>

definition elapsed_s :: "64 word \<Rightarrow> 64 word \<Rightarrow> rat" where
  "elapsed_s start_ns end_ns =
     round_to_double
       (round_to_double (of_int (sint end_ns - sint start_ns)) / 1000000000)"

section \<open>Step records\<close>

text \<open>
  The dictionaries appended to \<open>iterations\<close>.  The naive matcher writes the six keys of
  \<open>step\<close>; the Rabin-Karp matcher writes the same keys and \<open>phase\<close>, \<open>p_hash\<close>, \<open>t_hash\<close>.
\<close>

record step =
  index :: py_number
  matched :: bool
  comparisons :: nat
  iteration_time_s :: rat
  memory_bytes :: int
  details :: "pystr list"

datatype phase = init_hash | check | rolling_hash

record rk_step = step +
  phase :: phase
  p_hash :: int
  t_hash :: int

section \<open>Validation\<close>

text \<open>\<open>validate_inputs\<close>: the three \<open>raise ValueError\<close> in order, else the pair itself.\<close>

definition validate_inputs :: "pystr \<Rightarrow> pystr \<Rightarrow> error + (pystr \<times> pystr)" where
  "validate_inputs text pattern =
     (if text = [] \<or> pattern = [] then Inl ValueError
      else if length pattern > length text then Inl ValueError
      else if length text > 20000 then Inl ValueError
      else Inr (text, pattern))"

section \<open>The character comparison loop\<close>

text \<open>
  The inner \<open>for j in range(m)\<close> loop shared by both matchers, from \<open>j\<close> onwards, with the
  running \<open>comparisons\<close> counter (\<open>cmps\<close>) and \<open>details\<close> list (\<open>dets\<close>).  It stops at the first mismatch
  (\<open>break\<close>) with the flag false.  The two matchers differ only in the text that ends the
  mismatch line (\<open>stop\<close>).
\<close>

definition detail_line :: "pystr \<Rightarrow> pystr \<Rightarrow> nat \<Rightarrow> nat \<Rightarrow> string \<Rightarrow> pystr" where
  "detail_line text pattern i j rel =
     lit ''t['' @ str_nat (i + j) @ lit '']='' @ [39, text ! (i + j), 39] @ lit rel @
     lit ''p['' @ str_nat j @ lit '']='' @ [39, pattern ! j, 39]"

function compare_chars ::
  "pystr \<Rightarrow> pystr \<Rightarrow> nat \<Rightarrow> pystr \<Rightarrow> nat \<Rightarrow> nat \<Rightarrow> pystr list \<Rightarrow>
   error + (nat \<times> bool \<times> pystr list)" where
  "compare_chars text pattern i stop j cmps dets =
     (if j < length pattern then
        (if i + j < length text then
           (if text ! (i + j) \<noteq> pattern ! j
            then Inr (cmps + 1, False,
                      dets @ [detail_line text pattern i j '' != '' @ stop])
            else compare_chars text pattern i stop (j + 1) (cmps + 1)
                   (dets @ [detail_line text pattern i j '' == '']))
         else Inl IndexError)
      else Inr (cmps, True, dets))"
  by pat_completeness auto
termination
  by (relation "measure (\<lambda>(text, pattern, i, stop, j, cmps, dets).
        length pattern - j)") auto

declare compare_chars.simps [simp del]

section \<open>The naive matcher\<close>

text \<open>
  The variables a matcher updates while it runs: the number of clock readings taken so
  far, and the two lists it returns.
\<close>

record 'a run_state =
  ticks :: nat
  matches :: "nat list"
  iterations :: "'a list"

type_synonym naive_state = "step run_state"

definition naive_body ::
  "env \<Rightarrow> pystr \<Rightarrow> pystr \<Rightarrow> nat \<Rightarrow> naive_state \<Rightarrow> error + naive_state" where
  "naive_body env text pattern i s =
     (let start_ns = perf_counter_ns env (ticks s)
      in case compare_chars text pattern i (lit '' (stop)'') 0 0 [] of
           Inl e \<Rightarrow> Inl e
         | Inr (cmps, mtch, dets) \<Rightarrow>
             (let end_ns = perf_counter_ns env (ticks s + 1)
              in Inr \<lparr> ticks = ticks s + 2,
                       matches = (if mtch then matches s @ [i] else matches s),
                       iterations = iterations s @
                         [\<lparr> index = PyInt (int i), matched = mtch, comparisons = cmps,
                            iteration_time_s = elapsed_s start_ns end_ns,
                            memory_bytes = getsizeof env text + getsizeof env pattern,
                            details = dets \<rparr>] \<rparr>))"

definition naive_string_matching_instrumented ::
  "env \<Rightarrow> pystr \<Rightarrow> pystr \<Rightarrow> error + (nat list \<times> step list)" where
  "naive_string_matching_instrumented env text pattern =
     (let n = int (length text); m = int (length pattern)
      in case for_loop (naive_body env text pattern) (py_range (n - m + 1))
                \<lparr> ticks = 0, matches = [], iterations = [] \<rparr> of
           Inl e \<Rightarrow> Inl e
         | Inr s \<Rightarrow> Inr (matches s, iterations s))"

section \<open>The Rabin-Karp matcher\<close>

text \<open>The first loop: both hashes folded over the first \<open>m\<close> characters.\<close>

definition init_body ::
  "pystr \<Rightarrow> pystr \<Rightarrow> int \<Rightarrow> int \<Rightarrow> nat \<Rightarrow> int \<times> int \<Rightarrow> error + (int \<times> int)" where
  "init_body text pattern d q i hs =
     (case py_index pattern i of
        Inl e \<Rightarrow> Inl e
      | Inr pc \<Rightarrow>
          (let ph = (d * fst hs + py_ord pc) mod q
           in case py_index text i of
                Inl e \<Rightarrow> Inl e
              | Inr tc \<Rightarrow> Inr (ph, (d * snd hs + py_ord tc) mod q)))"

record rk_state = "rk_step run_state" +
  window_hash :: int

text \<open>
  One pass of the main loop at offset \<open>i\<close>: the check step, then the rolling step when
  \<open>i < n - m\<close>.  \<open>window_hash\<close> is the variable \<open>t_hash\<close>; \<open>ph\<close> and \<open>h\<close> are the variables
  \<open>p_hash\<close> and \<open>h\<close>, which the loop never assigns.
\<close>

definition rk_body ::
  "env \<Rightarrow> pystr \<Rightarrow> pystr \<Rightarrow> int \<Rightarrow> int \<Rightarrow> int \<Rightarrow> int \<Rightarrow> nat \<Rightarrow> rk_state \<Rightarrow>
   error + rk_state" where
  "rk_body env text pattern d q h ph i s =
     (let n = int (length text); m = int (length pattern);
          mem = getsizeof env text + getsizeof env pattern;
          start = perf_counter_ns env (ticks s)
      in case (if ph = window_hash s
               then compare_chars text pattern i [] 0 0 []
               else Inr (0, False,
                         [lit ''Hash mismatch: '' @ str_int ph @ lit '' vs '' @
                          str_int (window_hash s)])) of
           Inl e \<Rightarrow> Inl e
         | Inr (cmps, matched_flag, step_details) \<Rightarrow>
             (let ms = (if matched_flag then matches s @ [i] else matches s);
                  end = perf_counter_ns env (ticks s + 1);
                  its = iterations s @
                    [\<lparr> index = PyInt (int i), matched = matched_flag, comparisons = cmps,
                       iteration_time_s = elapsed_s start end, memory_bytes = mem,
                       details = step_details,
                       phase = check, p_hash = ph, t_hash = window_hash s \<rparr>]
              in if int i < n - m then
                   (case py_index text i of
                      Inl e \<Rightarrow> Inl e
                    | Inr c_out \<Rightarrow>
                        (case py_index text (i + length pattern) of
                           Inl e \<Rightarrow> Inl e
                         | Inr c_in \<Rightarrow>
                             (let rh_start = perf_counter_ns env (ticks s + 2);
                                  th = (d * (window_hash s - py_ord c_out * h) + py_ord c_in) mod q;
                                  rh_end = perf_counter_ns env (ticks s + 3)
                              in Inr \<lparr> ticks = ticks s + 4, matches = ms,
                                       iterations = its @
                                         [\<lparr> index = PyFloat (of_int (int i) + 1 / 2),
                                            matched = False, comparisons = 0,
                                            iteration_time_s = elapsed_s rh_start rh_end,
                                            memory_bytes = mem,
                                            details = [lit ''rolled t_hash -> '' @ str_int th],
                                            phase = rolling_hash, p_hash = ph, t_hash = th \<rparr>],
                                       window_hash = th \<rparr>)))
                 else Inr \<lparr> ticks = ticks s + 2, matches = ms, iterations = its,
                           window_hash = window_hash s \<rparr>))"

text \<open>
  The whole function, with \<open>d\<close> and \<open>q\<close> explicit.  \<open>pow\<close> comes first, so a zero modulus
  raises there and every later \<open>% q\<close> has a non-zero divisor.
\<close>

definition rabin_karp_instrumented ::
  "env \<Rightarrow> pystr \<Rightarrow> pystr \<Rightarrow> int \<Rightarrow> int \<Rightarrow> error + (nat list \<times> rk_step list)" where
  "rabin_karp_instrumented env text pattern d q =
     (let n = int (length text); m = int (length pattern)
      in case py_pow3 d (m - 1) q of
           Inl e \<Rightarrow> Inl e
         | Inr h \<Rightarrow>
             (let t0 = perf_counter_ns env 0
              in case for_loop (init_body text pattern d q) (py_range m) (0, 0) of
                   Inl e \<Rightarrow> Inl e
                 | Inr (ph, th) \<Rightarrow>
                     (let t1 = perf_counter_ns env 1;
                          init = \<lparr> index = PyInt (- 1), matched = False, comparisons = 0,
                                   iteration_time_s = elapsed_s t0 t1,
                                   memory_bytes = getsizeof env text + getsizeof env pattern,
                                   details = [lit ''initial p_hash='' @ str_int ph @
                                              lit '', t_hash='' @ str_int th @
                                              lit '', h='' @ str_int h],
                                   phase = init_hash, p_hash = ph, t_hash = th \<rparr>
                      in case for_loop (rk_body env text pattern d q h ph)
                                (py_range (n - m + 1))
                                \<lparr> ticks = 2, matches = [], iterations = [init],
                                  window_hash = th \<rparr> of
                           Inl e \<Rightarrow> Inl e
                         | Inr s \<Rightarrow> Inr (matches s, iterations s))))"

text \<open>The call with the default arguments \<open>d = 256\<close>, \<open>q = 101\<close>.\<close>

definition rabin_karp_default ::
  "env \<Rightarrow> pystr \<Rightarrow> pystr \<Rightarrow> error + (nat list \<times> rk_step list)" where
  "rabin_karp_default env text pattern = rabin_karp_instrumented env text pattern 256 101"

section \<open>Notions used to state the properties\<close>

text \<open>
  \<open>window text m i\<close> is the slice \<open>text[i:i+m]\<close>, and the pattern occurs at offset \<open>i\<close> when
  that slice is the pattern.  \<open>first_mismatch\<close> is the number of leading positions at
  which window and pattern agree, \<open>examined\<close> the number of characters a short-circuit
  comparison looks at.  \<open>hash_from_scratch\<close> folds \<open>hash = (d * hash + ord c) % q\<close> over
  a string, starting from \<open>0\<close>; \<open>poly_val\<close> is the same fold without the reduction.
  \<open>offsets\<close> is the \<open>range(n - m + 1)\<close> both main loops run over.
\<close>

definition occurs_at :: "pystr \<Rightarrow> pystr \<Rightarrow> nat \<Rightarrow> bool" where
  "occurs_at text pattern i = (take (length pattern) (drop i text) = pattern)"

definition first_mismatch :: "pystr \<Rightarrow> pystr \<Rightarrow> nat \<Rightarrow> nat" where
  "first_mismatch text pattern i =
     length (takeWhile (\<lambda>k. text ! (i + k) = pattern ! k) [0 ..< length pattern])"

definition examined :: "pystr \<Rightarrow> pystr \<Rightarrow> nat \<Rightarrow> nat" where
  "examined text pattern i = min (length pattern) (first_mismatch text pattern i + 1)"

definition hash_from_scratch :: "int \<Rightarrow> int \<Rightarrow> pystr \<Rightarrow> int" where
  "hash_from_scratch d q w = foldl (\<lambda>h c. (d * h + py_ord c) mod q) 0 w"

definition window :: "pystr \<Rightarrow> nat \<Rightarrow> nat \<Rightarrow> pystr" where
  "window text m i = take m (drop i text)"

definition poly_val :: "int \<Rightarrow> pystr \<Rightarrow> int" where
  "poly_val d w = foldl (\<lambda>a c. d * a + py_ord c) 0 w"

definition offsets :: "pystr \<Rightarrow> pystr \<Rightarrow> nat list" where
  "offsets text pattern = py_range (int (length text) - int (length pattern) + 1)"

text \<open>
  The fields of a Rabin-Karp step that do not depend on the environment, as a tuple
  (\<open>rk_view\<close>), and the tuples expected at offset \<open>i\<close>: \<open>check_view\<close> for the check step,
  \<open>roll_view\<close> for the rolling step, \<open>steps_at\<close> for the one or two steps of a pass of the
  main loop.  \<open>init_step\<close> is the expected initial step.
\<close>

definition rk_view :: "rk_step \<Rightarrow> phase \<times> py_number \<times> bool \<times> nat \<times> int \<times> int" where
  "rk_view st = (phase st, index st, matched st, comparisons st, p_hash st, t_hash st)"

definition check_view ::
  "int \<Rightarrow> int \<Rightarrow> pystr \<Rightarrow> pystr \<Rightarrow> nat \<Rightarrow> phase \<times> py_number \<times> bool \<times> nat \<times> int \<times> int" where
  "check_view d q text pattern i =
     (check, PyInt (int i), occurs_at text pattern i,
      (if hash_from_scratch d q pattern = hash_from_scratch d q (window text (length pattern) i)
       then examined text pattern i else 0),
      hash_from_scratch d q pattern,
      hash_from_scratch d q (window text (length pattern) i))"

definition roll_view ::
  "int \<Rightarrow> int \<Rightarrow> pystr \<Rightarrow> pystr \<Rightarrow> nat \<Rightarrow> phase \<times> py_number \<times> bool \<times> nat \<times> int \<times> int" where
  "roll_view d q text pattern i =
     (rolling_hash, PyFloat (of_int (int i) + 1 / 2), False, 0,
      hash_from_scratch d q pattern,
      hash_from_scratch d q (window text (length pattern) (Suc i)))"

definition steps_at ::
  "int \<Rightarrow> int \<Rightarrow> pystr \<Rightarrow> pystr \<Rightarrow> nat \<Rightarrow> (phase \<times> py_number \<times> bool \<times> nat \<times> int \<times> int) list" where
  "steps_at d q text pattern i =
     check_view d q text pattern i #
     (if i + length pattern < length text then [roll_view d q text pattern i] else [])"

definition init_step :: "env \<Rightarrow> pystr \<Rightarrow> pystr \<Rightarrow> int \<Rightarrow> int \<Rightarrow> rk_step" where
  "init_step env text pattern d q =
     \<lparr> index = PyInt (- 1), matched = False, comparisons = 0,
       iteration_time_s = elapsed_s (perf_counter_ns env 0) (perf_counter_ns env 1),
       memory_bytes = getsizeof env text + getsizeof env pattern,
       details = [lit ''initial p_hash='' @ str_int (hash_from_scratch d q pattern) @
                  lit '', t_hash='' @
                  str_int (hash_from_scratch d q (window text (length pattern) 0)) @
                  lit '', h='' @ str_int (d ^ (length pattern - 1) mod q)],
       phase = init_hash, p_hash = hash_from_scratch d q pattern,
       t_hash = hash_from_scratch d q (window text (length pattern) 0) \<rparr>"

text \<open>
  A fixed environment for running the matchers on concrete inputs, and the condition on
  the modulus under which the rolling hash is usually stated: \<open>q\<close> is a prime number.
\<close>

definition prime_modulus :: "int \<Rightarrow> bool" where
  "prime_modulus q = (1 < q \<and> (\<forall>k \<in> set [2 .. q - 1]. \<not> k dvd q))"

definition demo_env :: env where
  "demo_env = \<lparr> perf_counter_ns = (\<lambda>k. of_nat (1000 * k)),
                 getsizeof = (\<lambda>s. 49 + int (length s)) \<rparr>"






section \<open>Auxiliary facts\<close>

lemma for_loop_append:
  "for_loop body (xs @ ys) s =
     (case for_loop body xs s of Inl e \<Rightarrow> Inl e | Inr s' \<Rightarrow> for_loop body ys s')"
  by (induction xs arbitrary: s) (auto split: sum.splits)

lemma modpow_power: "modpow a e c = a ^ e mod c"
proof (induction a e c rule: modpow.induct)
  case (1 a e c)
  show ?case
  proof (cases "e = 0")
    case True
    then show ?thesis by (simp add: modpow.simps[of a 0 c])
  next
    case False
    have sq: "(a * a mod c) ^ (e div 2) mod c = a ^ (2 * (e div 2)) mod c"
      by (simp add: power_mod power_mult power2_eq_square)
    show ?thesis
    proof (cases "even e")
      case True
      then have "2 * (e div 2) = e" by simp
      with 1 False True sq show ?thesis by (simp add: modpow.simps[of a e c])
    next
      case odd: False
      then have e: "Suc (2 * (e div 2)) = e" by (simp add: odd_two_times_div_two_succ)
      have "a * (a ^ (2 * (e div 2)) mod c) mod c = a ^ Suc (2 * (e div 2)) mod c"
        by (simp add: mod_mult_right_eq)
      with 1 False odd sq e show ?thesis by (simp add: modpow.simps[of a e c])
    qed
  qed
qed

lemma py_pow3_power:
  assumes "q \<noteq> 0" "0 \<le> e"
  shows "py_pow3 d e q = Inr (d ^ nat e mod q)"
proof (cases "\<bar>q\<bar> = 1")
  case True
  then have "q = 1 \<or> q = - 1" by auto
  then have "d ^ nat e mod q = 0" by auto
  with assms True show ?thesis by (simp add: py_pow3_def)
next
  case False
  show ?thesis
  proof (cases "q < 0")
    case True
    then have q: "q = - \<bar>q\<bar>" by simp
    have "d ^ nat e mod q = (if d ^ nat e mod \<bar>q\<bar> = 0 then 0 else d ^ nat e mod \<bar>q\<bar> - \<bar>q\<bar>)"
      by (subst q) (rule zmod_zminus2_eq_if)
    with assms False True show ?thesis
      by (simp add: py_pow3_def Let_def modpow_power)
  next
    case nonneg: False
    with assms False show ?thesis
      by (simp add: py_pow3_def Let_def modpow_power)
  qed
qed

lemma hash_snoc:
  "hash_from_scratch d q (w @ [c]) = (d * hash_from_scratch d q w + py_ord c) mod q"
  by (simp add: hash_from_scratch_def)

lemma poly_val_snoc: "poly_val d (w @ [c]) = d * poly_val d w + py_ord c"
  by (simp add: poly_val_def)

lemma hash_poly: "hash_from_scratch d q w = poly_val d w mod q"
proof (induction w rule: rev_induct)
  case Nil
  show ?case by (simp add: hash_from_scratch_def poly_val_def)
next
  case (snoc c w)
  have "(d * (poly_val d w mod q) + py_ord c) mod q = (d * poly_val d w + py_ord c) mod q"
    by (metis mod_add_left_eq mod_mult_right_eq)
  with snoc show ?case by (simp add: hash_snoc poly_val_snoc)
qed

lemma poly_val_Cons: "poly_val d (x # w) = py_ord x * d ^ length w + poly_val d w"
proof (induction w rule: rev_induct)
  case Nil
  show ?case by (simp add: poly_val_def)
next
  case (snoc c w)
  have "poly_val d (x # w @ [c]) = d * poly_val d (x # w) + py_ord c"
    using poly_val_snoc[of d "x # w" c] by simp
  with snoc show ?case by (simp add: poly_val_snoc algebra_simps)
qed

lemma roll_hash:
  assumes h: "h mod q = d ^ length w mod q"
  shows "(d * (hash_from_scratch d q (x # w) - py_ord x * h) + py_ord y) mod q
         = hash_from_scratch d q (w @ [y])"
proof -
  have "(py_ord x * h) mod q = (py_ord x * d ^ length w) mod q"
    using h by (metis mod_mult_right_eq)
  then have "(poly_val d (x # w) mod q - py_ord x * h) mod q
             = (poly_val d (x # w) - py_ord x * d ^ length w) mod q"
    by (metis mod_diff_eq mod_mod_trivial)
  then have "(poly_val d (x # w) mod q - py_ord x * h) mod q = poly_val d w mod q"
    by (simp add: poly_val_Cons)
  then have "(d * (poly_val d (x # w) mod q - py_ord x * h) + py_ord y) mod q
             = (d * poly_val d w + py_ord y) mod q"
    by (metis mod_add_left_eq mod_mult_right_eq)
  then show ?thesis by (simp add: hash_poly poly_val_snoc)
qed

lemma window_roll:
  assumes "i + m < length text" "0 < m"
  shows "window text m i = text ! i # take (m - 1) (drop (Suc i) text)"
    and "window text m (Suc i) = take (m - 1) (drop (Suc i) text) @ [text ! (i + m)]"
proof -
  from assms obtain k where k: "m = Suc k" by (cases m) auto
  have "drop i text = text ! i # drop (Suc i) text"
    using assms by (simp add: Cons_nth_drop_Suc)
  then show "window text m i = text ! i # take (m - 1) (drop (Suc i) text)"
    by (simp add: window_def k)
  have "take (Suc k) (drop (Suc i) text) = take k (drop (Suc i) text) @ [drop (Suc i) text ! k]"
    using assms k by (simp add: take_Suc_conv_app_nth)
  then show "window text m (Suc i) = take (m - 1) (drop (Suc i) text) @ [text ! (i + m)]"
    using assms k by (simp add: window_def add.commute)
qed

lemma init_loop:
  assumes "k \<le> length pattern" "k \<le> length text"
  shows "for_loop (init_body text pattern d q) [0 ..< k] (0, 0)
         = Inr (hash_from_scratch d q (take k pattern), hash_from_scratch d q (take k text))"
  using assms
proof (induction k)
  case 0
  show ?case by (simp add: hash_from_scratch_def)
next
  case (Suc k)
  then have ih: "for_loop (init_body text pattern d q) [0 ..< k] (0, 0)
         = Inr (hash_from_scratch d q (take k pattern), hash_from_scratch d q (take k text))"
    by simp
  from Suc.prems have tk: "take (Suc k) pattern = take k pattern @ [pattern ! k]"
    "take (Suc k) text = take k text @ [text ! k]"
    by (simp_all add: take_Suc_conv_app_nth)
  have step: "init_body text pattern d q k (a, b)
              = Inr ((d * a + py_ord (pattern ! k)) mod q, (d * b + py_ord (text ! k)) mod q)"
    for a b using Suc.prems by (simp add: init_body_def py_index_def)
  show ?case
    by (simp add: for_loop_append ih step tk hash_snoc)
qed

lemma compare_chars_closed:
  assumes "i + length pattern \<le> length text"
  shows "\<exists>ds. compare_chars text pattern i stop j c d0 =
           Inr (c + min (length pattern - j)
                      (length (takeWhile (\<lambda>k. text ! (i + k) = pattern ! k) [j ..< length pattern]) + 1),
                length (takeWhile (\<lambda>k. text ! (i + k) = pattern ! k) [j ..< length pattern])
                  = length pattern - j,
                d0 @ ds)
         \<and> length ds = min (length pattern - j)
                      (length (takeWhile (\<lambda>k. text ! (i + k) = pattern ! k) [j ..< length pattern]) + 1)"
  using assms
proof (induction "text" pattern i stop j c d0 rule: compare_chars.induct)
  case (1 tx pattern i stop j cmps dets)
  let ?P = "\<lambda>k. tx ! (i + k) = pattern ! k"
  show ?case
  proof (cases "j < length pattern")
    case False
    then show ?thesis by (simp add: compare_chars.simps[of tx pattern i stop j])
  next
    case True
    with 1(2) have inr: "i + j < length tx" by simp
    from True have upt: "[j ..< length pattern] = j # [Suc j ..< length pattern]"
      by (simp add: upt_conv_Cons)
    show ?thesis
    proof (cases "?P j")
      case False
      with True inr show ?thesis
        by (simp add: compare_chars.simps[of tx pattern i stop j] upt)
    next
      case eq: True
      from 1(1)[OF True inr _ 1(2)] eq
      obtain ds where ds: "compare_chars tx pattern i stop (j + 1) (cmps + 1)
            (dets @ [detail_line tx pattern i j '' == '']) =
           Inr (cmps + 1 + min (length pattern - (j + 1))
                      (length (takeWhile ?P [j + 1 ..< length pattern]) + 1),
                length (takeWhile ?P [j + 1 ..< length pattern]) = length pattern - (j + 1),
                (dets @ [detail_line tx pattern i j '' == '']) @ ds)"
        and len: "length ds = min (length pattern - (j + 1))
                      (length (takeWhile ?P [j + 1 ..< length pattern]) + 1)"
        by auto
      have "compare_chars tx pattern i stop j cmps dets =
            compare_chars tx pattern i stop (j + 1) (cmps + 1)
              (dets @ [detail_line tx pattern i j '' == ''])"
        using True inr eq by (simp add: compare_chars.simps[of tx pattern i stop j])
      with ds len True eq show ?thesis
        apply (rule_tac x = "detail_line tx pattern i j '' == '' # ds" in exI)
        apply (simp add: upt)
        apply (auto simp: min_def)
        done
    qed
  qed
qed

lemma compare_chars_examined:
  assumes "i + length pattern \<le> length text"
  shows "\<exists>ds. compare_chars text pattern i stop 0 0 [] =
           Inr (examined text pattern i, first_mismatch text pattern i = length pattern, ds)
         \<and> length ds = examined text pattern i"
  using compare_chars_closed[OF assms, of stop 0 0 "[]"]
  by (simp add: examined_def first_mismatch_def)

lemma first_mismatch_le: "first_mismatch text pattern i \<le> length pattern"
  unfolding first_mismatch_def
  using length_takeWhile_le[of "\<lambda>k. text ! (i + k) = pattern ! k" "[0 ..< length pattern]"]
  by simp

lemma first_mismatch_full:
  "first_mismatch text pattern i = length pattern
   \<longleftrightarrow> (\<forall>k < length pattern. text ! (i + k) = pattern ! k)"
proof -
  let ?P = "\<lambda>k. text ! (i + k) = pattern ! k"
  let ?xs = "[0 ..< length pattern]"
  have "length (takeWhile ?P ?xs) = length ?xs \<longleftrightarrow> takeWhile ?P ?xs = ?xs"
    by (metis takeWhile_eq_take take_all order_refl)
  also have "\<dots> \<longleftrightarrow> (\<forall>k \<in> set ?xs. ?P k)"
    by (rule takeWhile_eq_all_conv)
  finally show ?thesis by (auto simp: first_mismatch_def)
qed

lemma occurs_at_nth:
  assumes "i + length pattern \<le> length text"
  shows "occurs_at text pattern i \<longleftrightarrow> (\<forall>k < length pattern. text ! (i + k) = pattern ! k)"
  using assms by (auto simp: occurs_at_def list_eq_iff_nth_eq)

lemma occurs_at_first_mismatch:
  assumes "i + length pattern \<le> length text"
  shows "first_mismatch text pattern i = length pattern \<longleftrightarrow> occurs_at text pattern i"
  using assms by (simp add: first_mismatch_full occurs_at_nth)

lemma first_mismatch_at:
  assumes "k < length pattern" "text ! (i + k) \<noteq> pattern ! k"
    "\<forall>j < k. text ! (i + j) = pattern ! j"
  shows "first_mismatch text pattern i = k"
proof -
  let ?P = "\<lambda>k. text ! (i + k) = pattern ! k"
  have "[0 ..< length pattern] = [0 ..< k] @ k # [Suc k ..< length pattern]"
    using assms(1) by (metis upt_conv_Cons upt_add_eq_append zero_le le_add_diff_inverse less_imp_le)
  moreover have "takeWhile ?P ([0 ..< k] @ k # [Suc k ..< length pattern])
                 = [0 ..< k] @ takeWhile ?P (k # [Suc k ..< length pattern])"
    by (rule takeWhile_append2) (use assms(3) in auto)
  moreover have "takeWhile ?P (k # [Suc k ..< length pattern]) = []"
    using assms(2) by simp
  ultimately show ?thesis by (simp add: first_mismatch_def)
qed

lemma examined_match:
  "occurs_at text pattern i \<Longrightarrow> i + length pattern \<le> length text
   \<Longrightarrow> examined text pattern i = length pattern"
  using occurs_at_first_mismatch[of i pattern "text"] by (simp add: examined_def)

lemma examined_mismatch:
  assumes "k < length pattern" "text ! (i + k) \<noteq> pattern ! k"
    "\<forall>j < k. text ! (i + j) = pattern ! j"
  shows "examined text pattern i = k + 1"
  using assms first_mismatch_at[OF assms] by (simp add: examined_def)

lemma naive_body_step:
  assumes "i + length pattern \<le> length text"
  shows "\<exists>st. naive_body env text pattern i s =
           Inr \<lparr> ticks = ticks s + 2,
                 matches = (if occurs_at text pattern i then matches s @ [i] else matches s),
                 iterations = iterations s @ [st] \<rparr>
         \<and> index st = PyInt (int i) \<and> matched st = occurs_at text pattern i
         \<and> comparisons st = examined text pattern i
         \<and> length (details st) = examined text pattern i"
proof -
  from compare_chars_examined[OF assms, of "lit '' (stop)''"]
  obtain ds where "compare_chars text pattern i (lit '' (stop)'') 0 0 [] =
           Inr (examined text pattern i, first_mismatch text pattern i = length pattern, ds)"
    and "length ds = examined text pattern i" by blast
  then show ?thesis
    by (simp add: naive_body_def Let_def occurs_at_first_mismatch[OF assms])
qed

lemma naive_loop:
  assumes "\<forall>i \<in> set js. i + length pattern \<le> length text"
  shows "\<exists>s' new. for_loop (naive_body env text pattern) js s = Inr s'
         \<and> matches s' = matches s @ filter (occurs_at text pattern) js
         \<and> iterations s' = iterations s @ new
         \<and> map index new = map (\<lambda>i. PyInt (int i)) js
         \<and> map matched new = map (occurs_at text pattern) js
         \<and> map comparisons new = map (examined text pattern) js
         \<and> map (\<lambda>st. length (details st)) new = map (examined text pattern) js"
  using assms
proof (induction js arbitrary: s)
  case Nil
  show ?case by simp
next
  case (Cons j js)
  from Cons.prems have j: "j + length pattern \<le> length text" by simp
  from naive_body_step[OF j, of env s] obtain st s1 where
    b: "naive_body env text pattern j s = Inr s1"
    and s1: "s1 = \<lparr> ticks = ticks s + 2,
                 matches = (if occurs_at text pattern j then matches s @ [j] else matches s),
                 iterations = iterations s @ [st] \<rparr>"
    and st: "index st = PyInt (int j)" "matched st = occurs_at text pattern j"
      "comparisons st = examined text pattern j"
      "length (details st) = examined text pattern j"
    by blast
  from Cons.prems have "\<forall>i \<in> set js. i + length pattern \<le> length text" by simp
  from Cons.IH[OF this, of s1] obtain s' new where
    l: "for_loop (naive_body env text pattern) js s1 = Inr s'"
    and r: "matches s' = matches s1 @ filter (occurs_at text pattern) js"
      "iterations s' = iterations s1 @ new"
      "map index new = map (\<lambda>i. PyInt (int i)) js"
      "map matched new = map (occurs_at text pattern) js"
      "map comparisons new = map (examined text pattern) js"
      "map (\<lambda>st. length (details st)) new = map (examined text pattern) js"
    by blast
  have "for_loop (naive_body env text pattern) (j # js) s = Inr s'"
    using b l by simp
  moreover have "matches s' = matches s @ filter (occurs_at text pattern) (j # js)"
    using r(1) s1 by simp
  moreover have "iterations s' = iterations s @ (st # new)"
    using r(2) s1 by simp
  ultimately show ?case using r(3-6) st
    by (intro exI[of _ s'] exI[of _ "st # new"]) simp
qed

lemma offsets_in_range:
  "i \<in> set (offsets text pattern) \<Longrightarrow> i + length pattern \<le> length text"
  by (auto simp: offsets_def py_range_def)

lemma naive_trace:
  "\<exists>its. naive_string_matching_instrumented env text pattern
           = Inr (filter (occurs_at text pattern) (offsets text pattern), its)
       \<and> map index its = map (\<lambda>i. PyInt (int i)) (offsets text pattern)
       \<and> map matched its = map (occurs_at text pattern) (offsets text pattern)
       \<and> map comparisons its = map (examined text pattern) (offsets text pattern)
       \<and> map (\<lambda>st. length (details st)) its = map (examined text pattern) (offsets text pattern)"
proof -
  have "\<forall>i \<in> set (offsets text pattern). i + length pattern \<le> length text"
    by (simp add: offsets_in_range)
  from naive_loop[OF this, of env "\<lparr> ticks = 0, matches = [], iterations = [] \<rparr>"]
  show ?thesis
    by (auto simp: naive_string_matching_instrumented_def Let_def offsets_def)
qed

lemma occurs_at_window: "occurs_at text pattern i \<longleftrightarrow> window text (length pattern) i = pattern"
  by (simp add: occurs_at_def window_def)

lemma roll_window:
  assumes "i + m < length text" "0 < m" "h mod q = d ^ (m - 1) mod q"
  shows "(d * (hash_from_scratch d q (window text m i) - py_ord (text ! i) * h)
            + py_ord (text ! (i + m))) mod q
         = hash_from_scratch d q (window text m (Suc i))"
proof -
  let ?w = "take (m - 1) (drop (Suc i) text)"
  have len: "length ?w = m - 1" using assms(1,2) by simp
  show ?thesis
    unfolding window_roll[OF assms(1,2)]
    by (rule roll_hash) (simp only: len assms(3))
qed

lemma rk_body_step:
  assumes im: "i + length pattern \<le> length text"
    and w: "window_hash s = hash_from_scratch d q (window text (length pattern) i)"
    and ph: "ph = hash_from_scratch d q pattern"
    and h: "h mod q = d ^ (length pattern - 1) mod q"
    and m: "0 < length pattern"
  shows "\<exists>s' new. rk_body env text pattern d q h ph i s = Inr s'
         \<and> matches s' = matches s @ filter (occurs_at text pattern) [i]
         \<and> iterations s' = iterations s @ new
         \<and> map rk_view new = steps_at d q text pattern i
         \<and> (i + length pattern < length text \<longrightarrow>
              window_hash s' = hash_from_scratch d q (window text (length pattern) (Suc i)))"
proof -
  from compare_chars_examined[OF im, of "[]"]
  obtain ds where cc: "compare_chars text pattern i [] 0 0 [] =
           Inr (examined text pattern i, first_mismatch text pattern i = length pattern, ds)"
    by blast
  have fm: "(first_mismatch text pattern i = length pattern) = occurs_at text pattern i"
    by (rule occurs_at_first_mismatch[OF im])
  have occ: "occurs_at text pattern i \<Longrightarrow> ph = window_hash s"
    by (simp add: occurs_at_window w ph)
  have lt: "(int i < int (length text) - int (length pattern))
            = (i + length pattern < length text)" by auto
  show ?thesis
  proof (cases "i + length pattern < length text")
    case True
    note roll = roll_window[OF True m h, folded w]
    from True have idx: "py_index text i = Inr (text ! i)"
      "py_index text (i + length pattern) = Inr (text ! (i + length pattern))"
      by (simp_all add: py_index_def)
    show ?thesis
    proof (cases "ph = window_hash s")
      case eq: True
      show ?thesis using True eq occ
        by (simp add: rk_body_def Let_def cc fm lt idx roll steps_at_def rk_view_def
              check_view_def roll_view_def w[symmetric] ph[symmetric])
    next
      case ne: False
      show ?thesis using True ne occ
        by (auto simp: rk_body_def Let_def lt idx roll steps_at_def rk_view_def
              check_view_def roll_view_def w[symmetric] ph[symmetric])
    qed
  next
    case False
    show ?thesis
    proof (cases "ph = window_hash s")
      case eq: True
      show ?thesis using False eq occ
        by (simp add: rk_body_def Let_def cc fm lt steps_at_def rk_view_def
              check_view_def w[symmetric] ph[symmetric])
    next
      case ne: False
      show ?thesis using False ne occ
        by (auto simp: rk_body_def Let_def lt steps_at_def rk_view_def
              check_view_def w[symmetric] ph[symmetric])
    qed
  qed
qed

lemma rk_loop:
  assumes ph: "ph = hash_from_scratch d q pattern"
    and h: "h mod q = d ^ (length pattern - 1) mod q"
    and m: "0 < length pattern"
    and w: "window_hash s = hash_from_scratch d q (window text (length pattern) 0)"
  shows "k + length pattern \<le> length text + 1 \<Longrightarrow>
         \<exists>s' new. for_loop (rk_body env text pattern d q h ph) [0 ..< k] s = Inr s'
         \<and> matches s' = matches s @ filter (occurs_at text pattern) [0 ..< k]
         \<and> iterations s' = iterations s @ new
         \<and> map rk_view new = concat (map (steps_at d q text pattern) [0 ..< k])
         \<and> (k + length pattern \<le> length text \<longrightarrow>
              window_hash s' = hash_from_scratch d q (window text (length pattern) k))"
proof (induction k)
  case 0
  show ?case using w by simp
next
  case (Suc k)
  then have km: "k + length pattern \<le> length text" by simp
  with Suc.IH obtain s1 new1 where
    l1: "for_loop (rk_body env text pattern d q h ph) [0 ..< k] s = Inr s1"
    and m1: "matches s1 = matches s @ filter (occurs_at text pattern) [0 ..< k]"
    and i1: "iterations s1 = iterations s @ new1"
    and v1: "map rk_view new1 = concat (map (steps_at d q text pattern) [0 ..< k])"
    and w1: "window_hash s1 = hash_from_scratch d q (window text (length pattern) k)"
    by auto
  from rk_body_step[OF km w1 ph h m, of env] obtain s2 new2 where
    l2: "rk_body env text pattern d q h ph k s1 = Inr s2"
    and m2: "matches s2 = matches s1 @ filter (occurs_at text pattern) [k]"
    and i2: "iterations s2 = iterations s1 @ new2"
    and v2: "map rk_view new2 = steps_at d q text pattern k"
    and w2: "k + length pattern < length text \<longrightarrow>
              window_hash s2 = hash_from_scratch d q (window text (length pattern) (Suc k))"
    by blast
  have "for_loop (rk_body env text pattern d q h ph) [0 ..< Suc k] s = Inr s2"
    using l1 l2 by (simp add: for_loop_append)
  moreover have "matches s2 = matches s @ filter (occurs_at text pattern) [0 ..< Suc k]"
    using m1 m2 by simp
  moreover have "iterations s2 = iterations s @ (new1 @ new2)"
    using i1 i2 by simp
  moreover have "map rk_view (new1 @ new2) = concat (map (steps_at d q text pattern) [0 ..< Suc k])"
    using v1 v2 by simp
  moreover have "Suc k + length pattern \<le> length text \<longrightarrow>
              window_hash s2 = hash_from_scratch d q (window text (length pattern) (Suc k))"
    using w2 by simp
  ultimately show ?case by blast
qed

lemma rk_trace:
  assumes m: "0 < length pattern" and mn: "length pattern \<le> length text" and q: "q \<noteq> 0"
  shows "\<exists>new. rabin_karp_instrumented env text pattern d q
           = Inr (filter (occurs_at text pattern) (offsets text pattern),
                  init_step env text pattern d q # new)
       \<and> map rk_view new = concat (map (steps_at d q text pattern) (offsets text pattern))"
proof -
  let ?m = "length pattern"
  let ?h = "d ^ (?m - 1) mod q"
  let ?ph = "hash_from_scratch d q pattern"
  let ?th = "hash_from_scratch d q (window text ?m 0)"
  let ?s0 = "\<lparr> ticks = 2, matches = [], iterations = [init_step env text pattern d q],
               window_hash = ?th \<rparr>"
  have pw: "py_pow3 d (int ?m - 1) q = Inr ?h"
    using py_pow3_power[OF q, of "int ?m - 1" d] m by (simp add: nat_diff_distrib')
  have il: "for_loop (init_body text pattern d q) (py_range (int ?m)) (0, 0) = Inr (?ph, ?th)"
    using init_loop[of ?m pattern "text" d q] mn by (simp add: py_range_def window_def)
  have off: "offsets text pattern = [0 ..< length text - ?m + 1]"
    using mn by (simp add: offsets_def py_range_def nat_diff_distrib' nat_add_distrib)
  have len: "length text - ?m + 1 + ?m \<le> length text + 1" using mn by simp
  have hh: "?h mod q = d ^ (?m - 1) mod q" by simp
  have ww: "window_hash ?s0 = ?th" by simp
  have sel: "matches ?s0 = []" "iterations ?s0 = [init_step env text pattern d q]"
    by simp_all
  from rk_loop[OF refl hh m ww len, of env, unfolded sel append_Nil append_Cons]
  obtain s' new where
    l: "for_loop (rk_body env text pattern d q ?h ?ph) (offsets text pattern) ?s0 = Inr s'"
    and r: "matches s' = filter (occurs_at text pattern) (offsets text pattern)"
      "iterations s' = init_step env text pattern d q # new"
      "map rk_view new = concat (map (steps_at d q text pattern) (offsets text pattern))"
    unfolding off by blast
  have "rabin_karp_instrumented env text pattern d q = Inr (matches s', iterations s')"
    using l by (simp add: rabin_karp_instrumented_def Let_def pw il init_step_def
        offsets_def[symmetric])
  with r show ?thesis by auto
qed

lemma valid_iff:
  "validate_inputs text pattern = Inr r \<longleftrightarrow>
     r = (text, pattern) \<and> 0 < length pattern \<and> length pattern \<le> length text
     \<and> length text \<le> 20000"
  by (auto simp: validate_inputs_def)

lemma offsets_upt:
  "length pattern \<le> length text \<Longrightarrow>
   offsets text pattern = [0 ..< length text - length pattern + 1]"
  by (simp add: offsets_def py_range_def nat_diff_distrib' nat_add_distrib)

lemma pairs_length: "length (concat (map (\<lambda>i. [f i, g i]) [0 ..< k])) = 2 * k"
  by (induction k) simp_all

lemma pairs_nth:
  "i < k \<Longrightarrow> concat (map (\<lambda>i. [f i, g i]) [0 ..< k]) ! (2 * i) = f i
           \<and> concat (map (\<lambda>i. [f i, g i]) [0 ..< k]) ! (2 * i + 1) = g i"
proof (induction k)
  case 0
  then show ?case by simp
next
  case (Suc k)
  show ?case
  proof (cases "i < k")
    case True
    with Suc.IH show ?thesis by (simp add: nth_append pairs_length)
  next
    case False
    with Suc.prems have "i = k" by simp
    then show ?thesis by (simp add: nth_append pairs_length)
  qed
qed

lemma steps_concat:
  assumes "length pattern \<le> length text"
  shows "concat (map (steps_at d q text pattern) (offsets text pattern))
         = concat (map (\<lambda>i. [check_view d q text pattern i, roll_view d q text pattern i])
                     [0 ..< length text - length pattern])
           @ [check_view d q text pattern (length text - length pattern)]"
proof -
  have a: "map (steps_at d q text pattern) [0 ..< length text - length pattern]
        = map (\<lambda>i. [check_view d q text pattern i, roll_view d q text pattern i])
            [0 ..< length text - length pattern]"
    by (rule map_cong) (auto simp: steps_at_def)
  have b: "steps_at d q text pattern (length text - length pattern)
        = [check_view d q text pattern (length text - length pattern)]"
    using assms by (simp add: steps_at_def)
  have "offsets text pattern
        = [0 ..< length text - length pattern] @ [length text - length pattern]"
    using offsets_upt[OF assms] by simp
  then show ?thesis
    by (simp only: map_append concat_append a b list.map concat.simps append_Nil2)
qed

lemma rk_trace_nth:
  assumes m: "0 < length pattern" and mn: "length pattern \<le> length text" and q: "q \<noteq> 0"
  shows "\<exists>new. rabin_karp_instrumented env text pattern d q
           = Inr (filter (occurs_at text pattern) (offsets text pattern),
                  init_step env text pattern d q # new)
       \<and> length new = 2 * (length text - length pattern) + 1
       \<and> (\<forall>i \<le> length text - length pattern.
             rk_view (new ! (2 * i)) = check_view d q text pattern i)
       \<and> (\<forall>i < length text - length pattern.
             rk_view (new ! (2 * i + 1)) = roll_view d q text pattern i)"
proof -
  let ?c = "length text - length pattern"
  let ?P = "concat (map (\<lambda>i. [check_view d q text pattern i, roll_view d q text pattern i])
                     [0 ..< ?c])"
  from rk_trace[OF m mn q, of env d] obtain new where
    r: "rabin_karp_instrumented env text pattern d q
           = Inr (filter (occurs_at text pattern) (offsets text pattern),
                  init_step env text pattern d q # new)"
    and v: "map rk_view new = ?P @ [check_view d q text pattern ?c]"
    unfolding steps_concat[OF mn] by blast
  have lenP: "length ?P = 2 * ?c" by (rule pairs_length)
  note pn = pairs_nth[where f = "check_view d q text pattern"
                      and g = "roll_view d q text pattern" and k = ?c]
  have "length (map rk_view new) = length (?P @ [check_view d q text pattern ?c])"
    by (simp only: v)
  then have len: "length new = 2 * ?c + 1"
    by (simp add: pairs_length)
  have nth: "rk_view (new ! j) = (?P @ [check_view d q text pattern ?c]) ! j"
    if "j < 2 * ?c + 1" for j
    using that len by (simp add: v[symmetric])
  have c1: "rk_view (new ! (2 * i)) = check_view d q text pattern i" if "i \<le> ?c" for i
  proof (cases "i < ?c")
    case True
    then show ?thesis using nth[of "2 * i"] pn[OF True] lenP
      by (simp add: nth_append)
  next
    case False
    with that have "i = ?c" by simp
    then show ?thesis using nth[of "2 * i"] lenP by (simp add: nth_append)
  qed
  have c2: "rk_view (new ! (2 * i + 1)) = roll_view d q text pattern i" if "i < ?c" for i
    using nth[of "2 * i + 1"] pn[OF that] lenP that by (simp add: nth_append)
  from r len c1 c2 show ?thesis by blast
qed

section \<open>Validation contract\<close>

text \<open>
  C3: \<open>validate_inputs\<close> raises exactly when the text is empty, or the pattern is empty,
  or the pattern is longer than the text, or the text has more than 20000 characters;
  otherwise it returns the pair it was given, unchanged.  A text of 20000 characters is
  accepted and one of 20001 characters is rejected.
\<close>

theorem validate_inputs_contract:
  "validate_inputs text pattern =
     (if text = [] \<or> pattern = [] \<or> length pattern > length text \<or> length text > 20000
      then Inl ValueError else Inr (text, pattern))
   \<and> validate_inputs (replicate 20000 65) [65] = Inr (replicate 20000 65, [65])
   \<and> validate_inputs (replicate 20001 65) [65] = Inl ValueError"
  by (simp add: validate_inputs_def)

section \<open>The two matchers report the same positions\<close>

lemma naive_matches:
  "map_sum id fst (naive_string_matching_instrumented env text pattern)
   = Inr (filter (occurs_at text pattern) (offsets text pattern))"
  using naive_trace[of env "text" pattern] by auto

lemma rk_matches:
  assumes "0 < length pattern" "length pattern \<le> length text" "q \<noteq> 0"
  shows "map_sum id fst (rabin_karp_instrumented env text pattern d q)
   = Inr (filter (occurs_at text pattern) (offsets text pattern))"
  using rk_trace[OF assms, of env d] by auto

lemma occurrences_AAAA:
  "filter (occurs_at (lit ''AAAA'') (lit ''AA'')) (offsets (lit ''AAAA'') (lit ''AA'')) = [0, 1, 2]"
  by code_simp

text \<open>
  C1: for every text and pattern accepted by \<open>validate_inputs\<close>, the naive matcher and
  the Rabin-Karp matcher with the default \<open>d = 256\<close>, \<open>q = 101\<close> return the same list of
  match positions; for the text \<open>AAAA\<close> and the pattern \<open>AA\<close> both return \<open>[0, 1, 2]\<close>.
\<close>

theorem naive_rabin_karp_same_matches:
  "(validate_inputs text pattern = Inr (text, pattern) \<longrightarrow>
      (\<exists>ms. map_sum id fst (naive_string_matching_instrumented env text pattern) = Inr ms
           \<and> map_sum id fst (rabin_karp_default env' text pattern) = Inr ms))
   \<and> map_sum id fst (naive_string_matching_instrumented env (lit ''AAAA'') (lit ''AA''))
       = Inr [0, 1, 2]
   \<and> map_sum id fst (rabin_karp_default env' (lit ''AAAA'') (lit ''AA'')) = Inr [0, 1, 2]"
proof (intro conjI impI)
  assume "validate_inputs text pattern = Inr (text, pattern)"
  then have "0 < length pattern" "length pattern \<le> length text"
    by (simp_all add: valid_iff)
  then show "\<exists>ms. map_sum id fst (naive_string_matching_instrumented env text pattern) = Inr ms
           \<and> map_sum id fst (rabin_karp_default env' text pattern) = Inr ms"
    by (simp add: naive_matches rabin_karp_default_def rk_matches)
next
  show "map_sum id fst (naive_string_matching_instrumented env (lit ''AAAA'') (lit ''AA''))
       = Inr [0, 1, 2]"
    by (simp only: naive_matches occurrences_AAAA)
next
  have "map_sum id fst (rabin_karp_default env' (lit ''AAAA'') (lit ''AA''))
        = Inr (filter (occurs_at (lit ''AAAA'') (lit ''AA'')) (offsets (lit ''AAAA'') (lit ''AA'')))"
    unfolding rabin_karp_default_def by (rule rk_matches) (simp_all add: lit_def)
  then show "map_sum id fst (rabin_karp_default env' (lit ''AAAA'') (lit ''AA'')) = Inr [0, 1, 2]"
    by (simp only: occurrences_AAAA)
qed

theorem naive_rabin_karp_same_matches_witness:
  "validate_inputs (lit ''ABABDABACDABABCABAB'') (lit ''ABABCABAB'')
     = Inr (lit ''ABABDABACDABABCABAB'', lit ''ABABCABAB'')
   \<and> map_sum id fst (naive_string_matching_instrumented demo_env
        (lit ''ABABDABACDABABCABAB'') (lit ''ABABCABAB'')) = Inr [10]
   \<and> map_sum id fst (rabin_karp_default demo_env
        (lit ''ABABDABACDABABCABAB'') (lit ''ABABCABAB'')) = Inr [10]"
proof -
  let ?T = "lit ''ABABDABACDABABCABAB''" and ?P = "lit ''ABABCABAB''"
  have v: "validate_inputs ?T ?P = Inr (?T, ?P)"
    by (simp add: validate_inputs_def lit_def)
  have "filter (occurs_at ?T ?P) (offsets ?T ?P) = [10]"
    by code_simp
  then have n: "map_sum id fst (naive_string_matching_instrumented demo_env ?T ?P) = Inr [10]"
    by (simp only: naive_matches)
  from naive_rabin_karp_same_matches[of ?T ?P demo_env demo_env] v n
  show ?thesis by auto
qed

section \<open>The trace of the naive matcher\<close>

lemma naive_trace_nth:
  assumes mn: "length pattern \<le> length text"
  shows "\<exists>its. naive_string_matching_instrumented env text pattern
           = Inr (filter (occurs_at text pattern) [0 ..< length text - length pattern + 1], its)
       \<and> length its = length text - length pattern + 1
       \<and> map index its = map (\<lambda>i. PyInt (int i)) [0 ..< length text - length pattern + 1]
       \<and> (\<forall>i \<le> length text - length pattern.
             index (its ! i) = PyInt (int i)
           \<and> matched (its ! i) = occurs_at text pattern i
           \<and> comparisons (its ! i) = examined text pattern i
           \<and> length (details (its ! i)) = examined text pattern i)"
proof -
  let ?os = "[0 ..< length text - length pattern + 1]"
  from naive_trace[of env "text" pattern] obtain its where
    r: "naive_string_matching_instrumented env text pattern
           = Inr (filter (occurs_at text pattern) ?os, its)"
    and ix: "map index its = map (\<lambda>i. PyInt (int i)) ?os"
    and mt: "map matched its = map (occurs_at text pattern) ?os"
    and cm: "map comparisons its = map (examined text pattern) ?os"
    and dt: "map (\<lambda>st. length (details st)) its = map (examined text pattern) ?os"
    unfolding offsets_upt[OF mn] by blast
  have "length (map index its) = length (map (\<lambda>i. PyInt (int i)) ?os)"
    by (simp only: ix)
  then have len: "length its = length text - length pattern + 1" by simp
  have nth: "index (its ! i) = PyInt (int i)
           \<and> matched (its ! i) = occurs_at text pattern i
           \<and> comparisons (its ! i) = examined text pattern i
           \<and> length (details (its ! i)) = examined text pattern i"
    if "i \<le> length text - length pattern" for i
  proof -
    from that len have i: "i < length its" "i < length ?os" by simp_all
    have os: "?os ! i = i" using i(2) by (metis nth_upt add_0 length_upt diff_zero)
    have "map index its ! i = index (its ! i)" "map matched its ! i = matched (its ! i)"
      "map comparisons its ! i = comparisons (its ! i)"
      "map (\<lambda>st. length (details st)) its ! i = length (details (its ! i))"
      using i(1) by simp_all
    moreover have "map (\<lambda>i. PyInt (int i)) ?os ! i = PyInt (int i)"
      "map (occurs_at text pattern) ?os ! i = occurs_at text pattern i"
      "map (examined text pattern) ?os ! i = examined text pattern i"
      using i(2) os by (simp_all only: nth_map)
    ultimately show ?thesis by (simp only: ix mt cm dt)
  qed
  from r len ix nth show ?thesis by blast
qed

text \<open>
  C2: for a valid text and pattern the naive matcher emits one step per offset
  \<open>0, 1, \<dots>, n - m\<close>, in this order (so \<open>n - m + 1\<close> steps), and its match positions are
  exactly the offsets \<open>i\<close> with \<open>text[i:i+m] = pattern\<close>, strictly increasing and at most
  \<open>n - m\<close>.
\<close>

theorem naive_offsets_and_matches:
  assumes "validate_inputs text pattern = Inr (text, pattern)"
  shows "\<exists>ms its. naive_string_matching_instrumented env text pattern = Inr (ms, its)
       \<and> map index its = map (\<lambda>i. PyInt (int i)) [0 ..< length text - length pattern + 1]
       \<and> length its = length text - length pattern + 1
       \<and> ms = filter (\<lambda>i. take (length pattern) (drop i text) = pattern)
                 [0 ..< length text - length pattern + 1]
       \<and> sorted_wrt (<) ms
       \<and> (\<forall>p \<in> set ms. p \<le> length text - length pattern)"
proof -
  from assms have mn: "length pattern \<le> length text" by (simp add: valid_iff)
  let ?os = "[0 ..< length text - length pattern + 1]"
  from naive_trace_nth[OF mn, of env] obtain its where
    r: "naive_string_matching_instrumented env text pattern
           = Inr (filter (occurs_at text pattern) ?os, its)"
    and len: "length its = length text - length pattern + 1"
    and ix: "map index its = map (\<lambda>i. PyInt (int i)) ?os"
    by blast
  have f: "filter (occurs_at text pattern) ?os
           = filter (\<lambda>i. take (length pattern) (drop i text) = pattern) ?os"
    by (rule filter_cong) (simp_all only: occurs_at_def)
  have s: "sorted_wrt (<) (filter (occurs_at text pattern) ?os)"
    by (rule sorted_wrt_filter) (simp del: upt_Suc)
  have b: "\<forall>p \<in> set (filter (occurs_at text pattern) ?os). p \<le> length text - length pattern"
    by auto
  from r len ix f s b show ?thesis by (simp del: upt_Suc)
qed

theorem naive_offsets_and_matches_witness:
  "validate_inputs (lit ''AAAA'') (lit ''AA'') = Inr (lit ''AAAA'', lit ''AA'')
   \<and> map_sum id fst (naive_string_matching_instrumented demo_env (lit ''AAAA'') (lit ''AA''))
       = Inr [0, 1, 2]
   \<and> map_sum id (\<lambda>r. map index (snd r))
        (naive_string_matching_instrumented demo_env (lit ''AAAA'') (lit ''AA''))
       = Inr [PyInt 0, PyInt 1, PyInt 2]"
proof -
  let ?T = "lit ''AAAA''" and ?P = "lit ''AA''"
  have v: "validate_inputs ?T ?P = Inr (?T, ?P)"
    by (simp add: validate_inputs_def lit_def)
  have l: "length ?T - length ?P + 1 = 3" by (simp add: lit_def)
  have u: "[0 ..< 3] = [0, 1, 2::nat]" by (simp add: upt_rec)
  have o: "filter (\<lambda>i. take (length ?P) (drop i ?T) = ?P) [0, 1, 2] = [0, 1, 2]"
    by (simp add: lit_def)
  from naive_offsets_and_matches[OF v, of demo_env]
  obtain ms its where "naive_string_matching_instrumented demo_env ?T ?P = Inr (ms, its)"
    "map index its = map (\<lambda>i. PyInt (int i)) [0, 1, 2]"
    "ms = filter (\<lambda>i. take (length ?P) (drop i ?T) = ?P) [0, 1, 2]"
    unfolding l u by blast
  with v o show ?thesis by simp
qed

lemma example_ABC:
  "offsets (lit ''ABC'') (lit ''XYZ'') = [0]"
  "examined (lit ''ABC'') (lit ''XYZ'') 0 = 1"
  "occurs_at (lit ''ABC'') (lit ''XYZ'') 0 = False"
  by code_simp+

text \<open>
  C7: the comparison count the naive matcher records at offset \<open>i\<close> is the number of
  characters examined before the loop stops: \<open>m\<close> when \<open>text[i:i+m]\<close> is the pattern, and
  \<open>k + 1\<close> when \<open>k\<close> is the first index at which they differ.  For the text \<open>ABC\<close> and the
  pattern \<open>XYZ\<close> the trace is one step with one comparison, and there is no match.
\<close>

theorem naive_comparison_count:
  "(validate_inputs text pattern = Inr (text, pattern) \<and> i \<le> length text - length pattern \<longrightarrow>
      (\<exists>ms its. naive_string_matching_instrumented env text pattern = Inr (ms, its)
         \<and> i < length its \<and> index (its ! i) = PyInt (int i)
         \<and> (take (length pattern) (drop i text) = pattern \<longrightarrow>
               comparisons (its ! i) = length pattern)
         \<and> (\<forall>k < length pattern.
               text ! (i + k) \<noteq> pattern ! k \<and> (\<forall>j < k. text ! (i + j) = pattern ! j) \<longrightarrow>
               comparisons (its ! i) = k + 1)))
   \<and> map_sum id (\<lambda>r. (fst r, map comparisons (snd r)))
        (naive_string_matching_instrumented env (lit ''ABC'') (lit ''XYZ'')) = Inr ([], [1])"
proof (intro conjI impI)
  assume a: "validate_inputs text pattern = Inr (text, pattern)
             \<and> i \<le> length text - length pattern"
  then have mn: "length pattern \<le> length text" by (simp add: valid_iff)
  from a have i: "i \<le> length text - length pattern" by simp
  with mn have im: "i + length pattern \<le> length text" by simp
  from naive_trace_nth[OF mn, of env] i obtain its where
    r: "naive_string_matching_instrumented env text pattern
           = Inr (filter (occurs_at text pattern) [0 ..< length text - length pattern + 1], its)"
    and len: "length its = length text - length pattern + 1"
    and ix: "index (its ! i) = PyInt (int i)"
    and cm: "comparisons (its ! i) = examined text pattern i"
    by blast
  have full: "comparisons (its ! i) = length pattern"
    if "take (length pattern) (drop i text) = pattern"
    using that examined_match[OF _ im] by (simp add: cm occurs_at_def)
  have part: "comparisons (its ! i) = k + 1"
    if "k < length pattern"
      "text ! (i + k) \<noteq> pattern ! k \<and> (\<forall>j < k. text ! (i + j) = pattern ! j)" for k
    using that examined_mismatch[of k pattern "text" i] by (simp add: cm)
  from r len ix i full part
  show "\<exists>ms its. naive_string_matching_instrumented env text pattern = Inr (ms, its)
         \<and> i < length its \<and> index (its ! i) = PyInt (int i)
         \<and> (take (length pattern) (drop i text) = pattern \<longrightarrow>
               comparisons (its ! i) = length pattern)
         \<and> (\<forall>k < length pattern.
               text ! (i + k) \<noteq> pattern ! k \<and> (\<forall>j < k. text ! (i + j) = pattern ! j) \<longrightarrow>
               comparisons (its ! i) = k + 1)"
    by (intro exI[of _ its] exI[of _ "filter (occurs_at text pattern)
          [0 ..< length text - length pattern + 1]"]) simp
next
  from naive_trace[of env "lit ''ABC''" "lit ''XYZ''"]
  show "map_sum id (\<lambda>r. (fst r, map comparisons (snd r)))
        (naive_string_matching_instrumented env (lit ''ABC'') (lit ''XYZ'')) = Inr ([], [1])"
    by (auto simp: example_ABC)
qed

theorem naive_comparison_count_witness:
  "validate_inputs (lit ''ABCABD'') (lit ''ABD'') = Inr (lit ''ABCABD'', lit ''ABD'')
   \<and> (0::nat) \<le> length (lit ''ABCABD'') - length (lit ''ABD'')
   \<and> (\<exists>ms its. naive_string_matching_instrumented demo_env (lit ''ABCABD'') (lit ''ABD'')
          = Inr (ms, its) \<and> comparisons (its ! 0) = 3)"
proof -
  let ?T = "lit ''ABCABD''" and ?P = "lit ''ABD''"
  have v: "validate_inputs ?T ?P = Inr (?T, ?P) \<and> (0::nat) \<le> length ?T - length ?P"
    by (simp add: validate_inputs_def lit_def)
  have k: "(2::nat) < length ?P"
    "?T ! (0 + 2) \<noteq> ?P ! 2 \<and> (\<forall>j < 2. ?T ! (0 + j) = ?P ! j)"
    by (simp_all add: lit_def less_Suc_eq numeral_2_eq_2)
  from naive_comparison_count[of ?T ?P 0 demo_env, THEN conjunct1, rule_format, OF v]
  obtain ms its where r: "naive_string_matching_instrumented demo_env ?T ?P = Inr (ms, its)"
    and c: "\<forall>k < length ?P.
               ?T ! (0 + k) \<noteq> ?P ! k \<and> (\<forall>j < k. ?T ! (0 + j) = ?P ! j) \<longrightarrow>
               comparisons (its ! 0) = k + 1"
    by blast
  from c k have "comparisons (its ! 0) = 2 + 1" by blast
  with r v show ?thesis by simp
qed

section \<open>The trace of the Rabin-Karp matcher\<close>

lemma rk_trace_all:
  assumes m: "0 < length pattern" and mn: "length pattern \<le> length text" and q: "q \<noteq> 0"
  shows "\<exists>new. rabin_karp_instrumented env text pattern d q
           = Inr (filter (occurs_at text pattern) (offsets text pattern),
                  init_step env text pattern d q # new)
       \<and> map rk_view new = concat (map (steps_at d q text pattern) (offsets text pattern))
       \<and> length new = 2 * (length text - length pattern) + 1
       \<and> (\<forall>i \<le> length text - length pattern.
             rk_view (new ! (2 * i)) = check_view d q text pattern i)
       \<and> (\<forall>i < length text - length pattern.
             rk_view (new ! (2 * i + 1)) = roll_view d q text pattern i)"
proof -
  from rk_trace[OF m mn q, of env d] obtain new1 where
    a: "rabin_karp_instrumented env text pattern d q
           = Inr (filter (occurs_at text pattern) (offsets text pattern),
                  init_step env text pattern d q # new1)"
    and v: "map rk_view new1 = concat (map (steps_at d q text pattern) (offsets text pattern))"
    by blast
  from rk_trace_nth[OF m mn q, of env d] obtain new2 where
    b: "rabin_karp_instrumented env text pattern d q
           = Inr (filter (occurs_at text pattern) (offsets text pattern),
                  init_step env text pattern d q # new2)"
    and n: "length new2 = 2 * (length text - length pattern) + 1"
      "\<forall>i \<le> length text - length pattern.
             rk_view (new2 ! (2 * i)) = check_view d q text pattern i"
      "\<forall>i < length text - length pattern.
             rk_view (new2 ! (2 * i + 1)) = roll_view d q text pattern i"
    by blast
  from a b have "new1 = new2" by simp
  with a v n show ?thesis by blast
qed

lemma steps_set:
  assumes "v \<in> set (concat (map (steps_at d q text pattern) (offsets text pattern)))"
  shows "\<exists>i. i + length pattern \<le> length text
            \<and> (v = check_view d q text pattern i
                \<or> i + length pattern < length text \<and> v = roll_view d q text pattern i)"
proof -
  from assms obtain i where i: "i \<in> set (offsets text pattern)"
    and v: "v \<in> set (steps_at d q text pattern i)" by auto
  from i have "i + length pattern \<le> length text" by (rule offsets_in_range)
  with v show ?thesis by (auto simp: steps_at_def split: if_splits)
qed

lemma view_set:
  assumes "map rk_view new = vs" "st \<in> set new"
  shows "rk_view st \<in> set vs"
  using assms by auto

lemma steps_phases:
  assumes "length pattern \<le> length text"
  shows "map fst (concat (map (steps_at d q text pattern) (offsets text pattern)))
         = concat (replicate (length text - length pattern) [check, rolling_hash]) @ [check]"
proof -
  have "map (\<lambda>i. [check, rolling_hash]) [0 ..< length text - length pattern]
        = replicate (length text - length pattern) [check, rolling_hash]"
    by (simp add: map_replicate_const)
  then show ?thesis
    by (simp add: steps_concat[OF assms] map_concat comp_def check_view_def roll_view_def)
qed

lemma hash_range:
  assumes "0 < q" "0 < length w"
  shows "0 \<le> hash_from_scratch d q w \<and> hash_from_scratch d q w < q"
proof -
  from assms(2) obtain u c where "w = u @ [c]" by (cases w rule: rev_cases) auto
  with assms(1) show ?thesis by (simp add: hash_snoc)
qed

lemma py_pow3_zero: "py_pow3 d e 0 = Inl ValueError"
  by (simp add: py_pow3_def)



text \<open>
  C10: every step of a Rabin-Karp trace, whatever its phase, records as \<open>p_hash\<close> the hash
  of the whole pattern computed before the main loop; this holds for every valid input
  and every \<open>d\<close> and \<open>q\<close> (with \<open>q = 0\<close> the call raises and there is no trace).
\<close>

theorem rabin_karp_pattern_hash_constant:
  assumes "validate_inputs text pattern = Inr (text, pattern)"
  shows "if q = 0 then rabin_karp_instrumented env text pattern d q = Inl ValueError
         else (\<exists>ms its. rabin_karp_instrumented env text pattern d q = Inr (ms, its)
                \<and> its \<noteq> [] \<and> phase (hd its) = init_hash
                \<and> (\<forall>st \<in> set its. p_hash st = hash_from_scratch d q pattern))"
proof (cases "q = 0")
  case True
  then show ?thesis by (simp add: rabin_karp_instrumented_def py_pow3_zero)
next
  case False
  from assms have m: "0 < length pattern" and mn: "length pattern \<le> length text"
    by (simp_all add: valid_iff)
  from rk_trace_all[OF m mn False, of env d] obtain new where
    r: "rabin_karp_instrumented env text pattern d q
           = Inr (filter (occurs_at text pattern) (offsets text pattern),
                  init_step env text pattern d q # new)"
    and v: "map rk_view new = concat (map (steps_at d q text pattern) (offsets text pattern))"
    by blast
  have ph: "p_hash st = hash_from_scratch d q pattern" if "st \<in> set new" for st
  proof -
    from steps_set[OF view_set[OF v that]]
    have "fst (snd (snd (snd (snd (rk_view st))))) = hash_from_scratch d q pattern"
      by (auto simp: check_view_def roll_view_def)
    then show ?thesis by (simp add: rk_view_def)
  qed
  have "\<forall>st \<in> set (init_step env text pattern d q # new).
          p_hash st = hash_from_scratch d q pattern"
    using ph by (simp add: init_step_def)
  with r False show ?thesis by (simp add: init_step_def)
qed

theorem rabin_karp_pattern_hash_constant_witness:
  "validate_inputs (lit ''AAAA'') (lit ''AA'') = Inr (lit ''AAAA'', lit ''AA'')
   \<and> map_sum id (\<lambda>r. map p_hash (snd r))
        (rabin_karp_instrumented demo_env (lit ''AAAA'') (lit ''AA'') 256 101)
       = Inr [40, 40, 40, 40, 40, 40]
   \<and> hash_from_scratch 256 101 (lit ''AA'') = 40"
proof -
  let ?T = "lit ''AAAA''" and ?P = "lit ''AA''"
  have v: "validate_inputs ?T ?P = Inr (?T, ?P)"
    by (simp add: validate_inputs_def lit_def)
  have e: "hash_from_scratch 256 101 ?P = 40" by code_simp
  have m: "0 < length ?P" "length ?P \<le> length ?T" by (simp_all add: lit_def)
  have q: "(101::int) \<noteq> 0" by simp
  have d: "length ?T - length ?P = 2" by (simp add: lit_def)
  from rk_trace_all[OF m q, of demo_env 256] obtain new where
    "rabin_karp_instrumented demo_env ?T ?P 256 101
       = Inr (filter (occurs_at ?T ?P) (offsets ?T ?P), init_step demo_env ?T ?P 256 101 # new)"
    "length new = 2 * (length ?T - length ?P) + 1"
    by blast
  then have l: "map_sum id (\<lambda>r. length (snd r))
             (rabin_karp_instrumented demo_env ?T ?P 256 101) = Inr 6"
    by (simp add: d)
  from rabin_karp_pattern_hash_constant[OF v, of 101 demo_env 256]
  obtain ms its where r: "rabin_karp_instrumented demo_env ?T ?P 256 101 = Inr (ms, its)"
    and p: "\<forall>st \<in> set its. p_hash st = 40"
    unfolding e by auto
  from l r have "length its = 6" by simp
  then have "map p_hash its = replicate 6 40"
    using p by (metis map_replicate_const map_eq_conv)
  with r v e show ?thesis by (simp add: numeral_eq_Suc)
qed

text \<open>
  C6: for a valid text and pattern (and a modulus other than \<open>0\<close>) the Rabin-Karp trace is
  one initial step, then for each offset a check step followed, except after the last
  offset, by a rolling step: \<open>1 + (n - m + 1) + (n - m)\<close> steps.  Initial and rolling steps
  record \<open>0\<close> comparisons, and a step has \<open>matched\<close> set only if it is the check step of an
  offset at which the whole pattern occurs.
\<close>

theorem rabin_karp_trace_shape:
  assumes "validate_inputs text pattern = Inr (text, pattern)" and "q \<noteq> 0"
  shows "\<exists>ms its. rabin_karp_instrumented env text pattern d q = Inr (ms, its)
       \<and> map phase its =
           init_hash # concat (replicate (length text - length pattern) [check, rolling_hash])
             @ [check]
       \<and> length its = 1 + (length text - length pattern + 1) + (length text - length pattern)
       \<and> (\<forall>st \<in> set its. phase st \<noteq> check \<longrightarrow> comparisons st = 0)
       \<and> (\<forall>st \<in> set its. matched st \<longrightarrow>
             phase st = check
             \<and> (\<exists>i \<le> length text - length pattern.
                   index st = PyInt (int i) \<and> take (length pattern) (drop i text) = pattern))"
proof -
  from assms(1) have m: "0 < length pattern" and mn: "length pattern \<le> length text"
    by (simp_all add: valid_iff)
  let ?init = "init_step env text pattern d q"
  from rk_trace_all[OF m mn assms(2), of env d] obtain new where
    r: "rabin_karp_instrumented env text pattern d q
           = Inr (filter (occurs_at text pattern) (offsets text pattern), ?init # new)"
    and v: "map rk_view new = concat (map (steps_at d q text pattern) (offsets text pattern))"
    and len: "length new = 2 * (length text - length pattern) + 1"
    by blast
  have "map phase new = map fst (map rk_view new)"
    by (simp add: rk_view_def)
  then have phs: "map phase (?init # new) =
      init_hash # concat (replicate (length text - length pattern) [check, rolling_hash])
        @ [check]"
    by (simp add: v steps_phases[OF mn] init_step_def)
  have ln: "length (?init # new)
            = 1 + (length text - length pattern + 1) + (length text - length pattern)"
    using len by simp
  have props: "(phase st \<noteq> check \<longrightarrow> comparisons st = 0)
      \<and> (matched st \<longrightarrow> phase st = check
             \<and> (\<exists>i \<le> length text - length pattern.
                   index st = PyInt (int i) \<and> take (length pattern) (drop i text) = pattern))"
    if "st \<in> set new" for st
  proof -
    from steps_set[OF view_set[OF v that]] obtain i where
      i: "i + length pattern \<le> length text"
      and c: "rk_view st = check_view d q text pattern i
              \<or> rk_view st = roll_view d q text pattern i" by blast
    from i have il: "i \<le> length text - length pattern" by simp
    from c show ?thesis
    proof
      assume "rk_view st = check_view d q text pattern i"
      then have "phase st = check" "index st = PyInt (int i)"
        "matched st = occurs_at text pattern i"
        by (simp_all add: rk_view_def check_view_def)
      with il show ?thesis by (auto simp: occurs_at_def)
    next
      assume "rk_view st = roll_view d q text pattern i"
      then have "comparisons st = 0" "\<not> matched st"
        by (simp_all add: rk_view_def roll_view_def)
      then show ?thesis by simp
    qed
  qed
  have all1: "\<forall>st \<in> set (?init # new). phase st \<noteq> check \<longrightarrow> comparisons st = 0"
    using props by (simp add: init_step_def)
  have all2: "\<forall>st \<in> set (?init # new). matched st \<longrightarrow>
             phase st = check
             \<and> (\<exists>i \<le> length text - length pattern.
                   index st = PyInt (int i) \<and> take (length pattern) (drop i text) = pattern)"
    using props by (simp add: init_step_def)
  show ?thesis
    by (intro exI[of _ "filter (occurs_at text pattern) (offsets text pattern)"]
          exI[of _ "?init # new"] conjI r phs ln all1 all2)
qed

theorem rabin_karp_trace_shape_witness:
  "validate_inputs (lit ''AAAB'') (lit ''AA'') = Inr (lit ''AAAB'', lit ''AA'')
   \<and> (101::int) \<noteq> 0
   \<and> map_sum id (\<lambda>r. map phase (snd r))
        (rabin_karp_instrumented demo_env (lit ''AAAB'') (lit ''AA'') 256 101)
       = Inr [init_hash, check, rolling_hash, check, rolling_hash, check]"
proof -
  let ?T = "lit ''AAAB''" and ?P = "lit ''AA''"
  have v: "validate_inputs ?T ?P = Inr (?T, ?P)"
    by (simp add: validate_inputs_def lit_def)
  have q: "(101::int) \<noteq> 0" by simp
  have l: "length ?T - length ?P = 2" by (simp add: lit_def)
  from rabin_karp_trace_shape[OF v q, of demo_env 256]
  obtain ms its where r: "rabin_karp_instrumented demo_env ?T ?P 256 101 = Inr (ms, its)"
    and p: "map phase its = init_hash # concat (replicate 2 [check, rolling_hash]) @ [check]"
    unfolding l by auto
  from r p v q show ?thesis by (simp add: numeral_2_eq_2)
qed

text \<open>
  C5: at every offset \<open>i\<close> the check step of the Rabin-Karp matcher (step \<open>2 i + 1\<close> of the
  trace) records the pattern hash and the hash of the window at \<open>i\<close>.  If they differ, the
  step has \<open>0\<close> comparisons, is not matched, and \<open>i\<close> is not reported.  If they are equal,
  the characters are compared up to the first mismatch, and the step is matched exactly
  when the window is the pattern.  In both cases \<open>i\<close> is reported exactly when the window
  at \<open>i\<close> is the pattern: no false match from a collision, no occurrence skipped.
\<close>

theorem rabin_karp_check_step:
  assumes "validate_inputs text pattern = Inr (text, pattern)" and "q \<noteq> 0"
    and "i \<le> length text - length pattern"
  shows "\<exists>ms its. rabin_karp_instrumented env text pattern d q = Inr (ms, its)
       \<and> 2 * i + 1 < length its
       \<and> phase (its ! (2 * i + 1)) = check
       \<and> index (its ! (2 * i + 1)) = PyInt (int i)
       \<and> p_hash (its ! (2 * i + 1)) = hash_from_scratch d q pattern
       \<and> t_hash (its ! (2 * i + 1)) = hash_from_scratch d q (take (length pattern) (drop i text))
       \<and> (p_hash (its ! (2 * i + 1)) \<noteq> t_hash (its ! (2 * i + 1)) \<longrightarrow>
            comparisons (its ! (2 * i + 1)) = 0 \<and> \<not> matched (its ! (2 * i + 1))
            \<and> i \<notin> set ms)
       \<and> (p_hash (its ! (2 * i + 1)) = t_hash (its ! (2 * i + 1)) \<longrightarrow>
            (matched (its ! (2 * i + 1)) \<longleftrightarrow> take (length pattern) (drop i text) = pattern)
            \<and> (take (length pattern) (drop i text) = pattern \<longrightarrow>
                  comparisons (its ! (2 * i + 1)) = length pattern)
            \<and> (\<forall>k < length pattern.
                  text ! (i + k) \<noteq> pattern ! k \<and> (\<forall>j < k. text ! (i + j) = pattern ! j) \<longrightarrow>
                  comparisons (its ! (2 * i + 1)) = k + 1))
       \<and> (i \<in> set ms \<longleftrightarrow> take (length pattern) (drop i text) = pattern)"
proof -
  from assms(1) have m: "0 < length pattern" and mn: "length pattern \<le> length text"
    by (simp_all add: valid_iff)
  from assms(3) mn have im: "i + length pattern \<le> length text" by simp
  let ?init = "init_step env text pattern d q"
  let ?ms = "filter (occurs_at text pattern) (offsets text pattern)"
  from rk_trace_all[OF m mn assms(2), of env d] assms(3) obtain new where
    r: "rabin_karp_instrumented env text pattern d q = Inr (?ms, ?init # new)"
    and len: "length new = 2 * (length text - length pattern) + 1"
    and ck: "rk_view (new ! (2 * i)) = check_view d q text pattern i"
    by blast
  let ?ck = "(?init # new) ! (2 * i + 1)"
  have nth: "?ck = new ! (2 * i)" by simp
  let ?ph = "hash_from_scratch d q pattern"
  let ?th = "hash_from_scratch d q (take (length pattern) (drop i text))"
  from ck have f: "phase ?ck = check" "index ?ck = PyInt (int i)"
    "matched ?ck = occurs_at text pattern i"
    "comparisons ?ck = (if ?ph = ?th then examined text pattern i else 0)"
    "p_hash ?ck = ?ph" "t_hash ?ck = ?th"
    unfolding nth by (simp_all add: rk_view_def check_view_def window_def)
  have occ: "occurs_at text pattern i \<longleftrightarrow> take (length pattern) (drop i text) = pattern"
    by (simp add: occurs_at_def)
  have mem: "i \<in> set ?ms \<longleftrightarrow> take (length pattern) (drop i text) = pattern"
  proof -
    have "i \<in> set (offsets text pattern)"
      using assms(3) by (simp add: offsets_upt[OF mn] del: upt_Suc)
    then show ?thesis by (simp add: occurs_at_def)
  qed
  have c0: "2 * i + 1 < length (?init # new)" using len assms(3) by simp
  have c1: "p_hash ?ck \<noteq> t_hash ?ck \<longrightarrow>
            comparisons ?ck = 0 \<and> \<not> matched ?ck \<and> i \<notin> set ?ms"
    unfolding f mem occ by auto
  have full: "examined text pattern i = length pattern"
    if "take (length pattern) (drop i text) = pattern"
    using that examined_match[OF _ im] by (simp add: occurs_at_def)
  have part: "examined text pattern i = k + 1"
    if "k < length pattern"
      "text ! (i + k) \<noteq> pattern ! k \<and> (\<forall>j < k. text ! (i + j) = pattern ! j)" for k
    using that examined_mismatch[of k pattern "text" i] by simp
  have c2: "p_hash ?ck = t_hash ?ck \<longrightarrow>
            (matched ?ck \<longleftrightarrow> take (length pattern) (drop i text) = pattern)
            \<and> (take (length pattern) (drop i text) = pattern \<longrightarrow>
                  comparisons ?ck = length pattern)
            \<and> (\<forall>k < length pattern.
                  text ! (i + k) \<noteq> pattern ! k \<and> (\<forall>j < k. text ! (i + j) = pattern ! j) \<longrightarrow>
                  comparisons ?ck = k + 1)"
  proof (intro impI conjI allI)
    assume eq: "p_hash ?ck = t_hash ?ck"
    then have "?ph = ?th" by (simp only: f(5,6))
    with f(4) have ex: "comparisons ?ck = examined text pattern i"
      by (metis (full_types))
    show "matched ?ck \<longleftrightarrow> take (length pattern) (drop i text) = pattern"
      by (simp only: f occ)
    show "comparisons ?ck = length pattern"
      if "take (length pattern) (drop i text) = pattern"
      using full[OF that] by (simp only: ex)
    show "comparisons ?ck = k + 1"
      if "k < length pattern"
        "text ! (i + k) \<noteq> pattern ! k \<and> (\<forall>j < k. text ! (i + j) = pattern ! j)" for k
      using part[OF that] by (simp only: ex)
  qed
  show ?thesis
    by (intro exI[of _ ?ms] exI[of _ "?init # new"] conjI r c0 f(1,2,5,6) c1 c2 mem)
qed

theorem rabin_karp_check_step_witness:
  "validate_inputs [166, 65] [65] = Inr ([166, 65], [65])
   \<and> (101::int) \<noteq> 0 \<and> (0::nat) \<le> length [166, 65::nat] - length [65::nat]
   \<and> (\<exists>ms its. rabin_karp_instrumented demo_env [166, 65] [65] 256 101 = Inr (ms, its)
         \<and> p_hash (its ! 1) = 65 \<and> t_hash (its ! 1) = 65
         \<and> comparisons (its ! 1) = 1 \<and> \<not> matched (its ! 1) \<and> 0 \<notin> set ms)"
proof -
  let ?T = "[166, 65::nat]" and ?P = "[65::nat]"
  have v: "validate_inputs ?T ?P = Inr (?T, ?P)"
    by (simp add: validate_inputs_def)
  have q: "(101::int) \<noteq> 0" by simp
  have i: "(0::nat) \<le> length ?T - length ?P" by simp
  have e: "hash_from_scratch 256 101 ?P = 65"
    "hash_from_scratch 256 101 (take (length ?P) (drop 0 ?T)) = 65"
    by code_simp+
  from rabin_karp_check_step[OF v q i, of demo_env 256]
  obtain ms its where r: "rabin_karp_instrumented demo_env ?T ?P 256 101 = Inr (ms, its)"
    and h: "p_hash (its ! 1) = 65" "t_hash (its ! 1) = 65"
    and c: "p_hash (its ! 1) = t_hash (its ! 1) \<longrightarrow>
            (matched (its ! 1) \<longleftrightarrow> take (length ?P) (drop 0 ?T) = ?P)
            \<and> (take (length ?P) (drop 0 ?T) = ?P \<longrightarrow> comparisons (its ! 1) = length ?P)
            \<and> (\<forall>k < length ?P.
                  ?T ! (0 + k) \<noteq> ?P ! k \<and> (\<forall>j < k. ?T ! (0 + j) = ?P ! j) \<longrightarrow>
                  comparisons (its ! 1) = k + 1)"
    and s: "0 \<in> set ms \<longleftrightarrow> take (length ?P) (drop 0 ?T) = ?P"
    unfolding e by (elim exE conjE) simp
  from h c have "\<not> matched (its ! 1)" "comparisons (its ! 1) = 1" by simp_all
  moreover from s have "0 \<notin> set ms" by simp
  ultimately show ?thesis using r h v by simp
qed

text \<open>
  C4: in the Rabin-Karp matcher, for every offset \<open>i < n - m\<close>, the rolling step after
  offset \<open>i\<close> (step \<open>2 i + 2\<close> of the trace) records as \<open>t_hash\<close> the hash obtained by folding
  \<open>hash = (d * hash + ord c) % q\<close> over the window \<open>text[i+1 : i+1+m]\<close> from scratch, and this
  value is a non-negative residue modulo \<open>q\<close>; this holds for every prime \<open>q\<close> and every \<open>d\<close>
  coprime to it, among them the defaults \<open>256\<close> and \<open>101\<close>.
\<close>

theorem rabin_karp_rolling_hash:
  assumes "validate_inputs text pattern = Inr (text, pattern)"
    and "prime_modulus q" and "coprime d q"
    and "i < length text - length pattern"
  shows "\<exists>ms its. rabin_karp_instrumented env text pattern d q = Inr (ms, its)
       \<and> 2 * i + 2 < length its
       \<and> phase (its ! (2 * i + 2)) = rolling_hash
       \<and> index (its ! (2 * i + 2)) = PyFloat (of_int (int i) + 1 / 2)
       \<and> t_hash (its ! (2 * i + 2))
           = hash_from_scratch d q (take (length pattern) (drop (i + 1) text))
       \<and> 0 \<le> t_hash (its ! (2 * i + 2)) \<and> t_hash (its ! (2 * i + 2)) < q"
proof -
  from assms(1) have m: "0 < length pattern" and mn: "length pattern \<le> length text"
    by (simp_all add: valid_iff)
  from assms(2) have qpos: "0 < q" and q: "q \<noteq> 0" by (simp_all add: prime_modulus_def)
  let ?init = "init_step env text pattern d q"
  let ?ms = "filter (occurs_at text pattern) (offsets text pattern)"
  let ?w = "take (length pattern) (drop (i + 1) text)"
  from rk_trace_all[OF m mn q, of env d] assms(4) obtain new where
    r: "rabin_karp_instrumented env text pattern d q = Inr (?ms, ?init # new)"
    and len: "length new = 2 * (length text - length pattern) + 1"
    and rl: "rk_view (new ! (2 * i + 1)) = roll_view d q text pattern i"
    by blast
  let ?rl = "(?init # new) ! (2 * i + 2)"
  have nth: "?rl = new ! (2 * i + 1)" by simp
  from rl have f: "phase ?rl = rolling_hash" "index ?rl = PyFloat (of_int (int i) + 1 / 2)"
    "t_hash ?rl = hash_from_scratch d q ?w"
    unfolding nth by (simp_all add: rk_view_def roll_view_def window_def)
  have "0 < length ?w" using m assms(4) by simp
  from hash_range[OF qpos this, of d]
  have rng: "0 \<le> t_hash ?rl" "t_hash ?rl < q" by (simp_all only: f(3))
  have c0: "2 * i + 2 < length (?init # new)" using len assms(4) by simp
  show ?thesis
    by (intro exI[of _ ?ms] exI[of _ "?init # new"] conjI r c0 f rng)
qed

theorem rabin_karp_rolling_hash_witness:
  "validate_inputs (lit ''ABAB'') (lit ''AB'') = Inr (lit ''ABAB'', lit ''AB'')
   \<and> prime_modulus 101 \<and> coprime (256::int) 101
   \<and> (0::nat) < length (lit ''ABAB'') - length (lit ''AB'')
   \<and> hash_from_scratch 256 101 (lit ''BA'') = 94
   \<and> (\<exists>ms its. rabin_karp_instrumented demo_env (lit ''ABAB'') (lit ''AB'') 256 101
          = Inr (ms, its)
        \<and> phase (its ! 2) = rolling_hash \<and> t_hash (its ! 2) = 94)"
proof -
  let ?T = "lit ''ABAB''" and ?P = "lit ''AB''"
  have v: "validate_inputs ?T ?P = Inr (?T, ?P)"
    by (simp add: validate_inputs_def lit_def)
  have p: "prime_modulus 101" by code_simp
  have c: "coprime (256::int) 101" by code_simp
  have i: "(0::nat) < length ?T - length ?P" by (simp add: lit_def)
  have e: "hash_from_scratch 256 101 (take (length ?P) (drop (0 + 1) ?T)) = 94"
    "hash_from_scratch 256 101 (lit ''BA'') = 94"
    by code_simp+
  from rabin_karp_rolling_hash[OF v p c i, of demo_env]
  obtain ms its where r: "rabin_karp_instrumented demo_env ?T ?P 256 101 = Inr (ms, its)"
    and h: "phase (its ! 2) = rolling_hash" "t_hash (its ! 2) = 94"
    unfolding e by (elim exE conjE) (simp add: numeral_2_eq_2)
  from r h v p c i e(2) show ?thesis by (intro conjI exI[of _ ms] exI[of _ its])
qed

section \<open>Runs that differ only in the clock\<close>









end
